theory Spec2Isabelle
  imports Complex_Main "HOL-Library.AList"
begin

section \<open>Conventions of the embedding\<close>

text \<open>
  The Python sources are embedded shallowly.  Python \<open>int\<close> is \<^typ>\<open>int\<close>, \<open>str\<close> is
  \<^typ>\<open>string\<close>.  Python \<open>float\<close> values (seconds, weights, carry targets) are embedded
  as \<^typ>\<open>real\<close>: the development reasons about the exact arithmetic the code denotes and
  not about binary rounding.  A \<open>dict\<close> is an association list in insertion order whose
  keys are pairwise distinct; \<open>d.get(k, default)\<close> is \<open>dict_get\<close> and \<open>d[k] = v\<close> is
  \<^const>\<open>AList.update\<close>, which overwrites in place or appends a new key at the end, as Python
  does.
\<close>

definition dict_get :: "('k \<times> 'v) list \<Rightarrow> 'k \<Rightarrow> 'v \<Rightarrow> 'v" where
  "dict_get d k dflt = (case map_of d k of None \<Rightarrow> dflt | Some v \<Rightarrow> v)"

section \<open>core/panel\_state.py: the log ring\<close>

record LogEntry =
  timestamp :: real
  message :: string
  level :: string

text \<open>Of \<open>PanelStateStore\<close> only the field \<open>logs\<close> is read or written by \<open>add_log\<close>.\<close>

record PanelStateStore =
  logs :: "LogEntry list"

definition PanelStateStore_init :: PanelStateStore where
  "PanelStateStore_init = \<lparr>logs = []\<rparr>"

text \<open>
  \<open>add_log\<close>: the entry is appended, then \<open>self.logs = self.logs[-200:]\<close> when the list
  has more than 200 entries.  The clock reading \<open>time.time()\<close> is the parameter \<open>now\<close>.
  The result is the updated store and the returned entry.
\<close>

definition add_log :: "real \<Rightarrow> string \<Rightarrow> string \<Rightarrow> PanelStateStore \<Rightarrow> PanelStateStore \<times> LogEntry" where
  "add_log now msg lvl st =
     (let entry = \<lparr>timestamp = now, message = msg, level = lvl\<rparr>;
          appended = logs st @ [entry]
      in if length appended > 200
         then (st\<lparr>logs := drop (length appended - 200) appended\<rparr>, entry)
         else (st\<lparr>logs := appended\<rparr>, entry))"

text \<open>A sequence of insertions, each given as (clock reading, message, level).\<close>

fun add_logs :: "PanelStateStore \<Rightarrow> (real \<times> string \<times> string) list \<Rightarrow> PanelStateStore" where
  "add_logs st [] = st"
| "add_logs st ((now, msg, lvl) # rest) = add_logs (fst (add_log now msg lvl st)) rest"

definition entry_of :: "real \<times> string \<times> string \<Rightarrow> LogEntry" where
  "entry_of i = (case i of (now, msg, lvl) \<Rightarrow> \<lparr>timestamp = now, message = msg, level = lvl\<rparr>)"

section \<open>managers/building\_manager.py: resource wait\<close>

record Resources =
  wood :: int
  stone :: int
  iron :: int

definition can_afford :: "Resources \<Rightarrow> Resources \<Rightarrow> bool" where
  "can_afford self cost \<longleftrightarrow> wood self \<ge> wood cost \<and> stone self \<ge> stone cost \<and> iron self \<ge> iron cost"

text \<open>The attribute names the loop of \<open>_calculate_resource_wait\<close> walks, and \<open>getattr\<close> on them.\<close>

datatype res_type = Wood | Stone | Iron

fun getattr :: "Resources \<Rightarrow> res_type \<Rightarrow> int" where
  "getattr r Wood = wood r"
| "getattr r Stone = stone r"
| "getattr r Iron = iron r"

text \<open>
  The body of the \<open>for res_type in ("wood", "stone", "iron")\<close> loop with the running
  \<open>max_wait\<close>; \<open>continue\<close> is the recursive call, \<open>return 3600.0\<close> leaves the loop, and
  the empty list is the code after the loop, \<open>return min(max_wait, 3600.0)\<close>.
\<close>

fun resource_wait_loop :: "Resources \<Rightarrow> Resources \<Rightarrow> Resources \<Rightarrow> res_type list \<Rightarrow> real \<Rightarrow> real" where
  "resource_wait_loop current cost production [] max_wait = min max_wait 3600"
| "resource_wait_loop current cost production (rt # rts) max_wait =
     (let have = getattr current rt;
          need = getattr cost rt;
          deficit = need - have
      in if deficit \<le> 0 then resource_wait_loop current cost production rts max_wait
         else
           let rate = getattr production rt
           in if rate \<le> 0 then 3600
              else
                let wait = real_of_int deficit / (real_of_int rate / 3600)
                in if wait > max_wait
                   then resource_wait_loop current cost production rts wait
                   else resource_wait_loop current cost production rts max_wait)"

definition calculate_resource_wait :: "Resources \<Rightarrow> Resources \<Rightarrow> Resources \<Rightarrow> real" where
  "calculate_resource_wait current cost production =
     resource_wait_loop current cost production [Wood, Stone, Iron] 0"

text \<open>The quantities of the specification's sentence, written after its words.\<close>

definition spec_deficit :: "Resources \<Rightarrow> Resources \<Rightarrow> res_type \<Rightarrow> int" where
  "spec_deficit current cost rt = max 0 (getattr cost rt - getattr current rt)"

definition spec_wait :: "Resources \<Rightarrow> Resources \<Rightarrow> Resources \<Rightarrow> res_type \<Rightarrow> real" where
  "spec_wait current cost production rt =
     real_of_int (spec_deficit current cost rt) / (real_of_int (getattr production rt) / 3600)"

section \<open>managers/building\_manager.py: sequential planner\<close>

record BuildStep =
  building :: string
  level :: int

text \<open>The first loop of \<open>_pick_next_building_sequential\<close>: occurrences per queued building.\<close>

definition queued_counts :: "string list \<Rightarrow> (string \<times> int) list" where
  "queued_counts queue_buildings =
     fold (\<lambda>b qc. AList.update b (dict_get qc b 0 + 1) qc) queue_buildings []"

text \<open>The second loop: the first step whose effective level is below the step's level.\<close>

fun walk_steps :: "(string \<times> int) list \<Rightarrow> (string \<times> int) list \<Rightarrow> BuildStep list \<Rightarrow> (string \<times> int \<times> int) option" where
  "walk_steps current_levels qc [] = None"
| "walk_steps current_levels qc (step # rest) =
     (let current = dict_get current_levels (building step) 0;
          queued = dict_get qc (building step) 0;
          effective_level = current + queued
      in if effective_level < level step then Some (building step, current, level step)
         else walk_steps current_levels qc rest)"

definition pick_next_building_sequential ::
  "BuildStep list \<Rightarrow> (string \<times> int) list \<Rightarrow> string list \<Rightarrow> (string \<times> int \<times> int) option" where
  "pick_next_building_sequential build_steps current_levels queue_buildings =
     walk_steps current_levels (queued_counts queue_buildings) build_steps"

text \<open>The specification's effective level: current level plus occurrences in the queue.\<close>

definition spec_effective_level :: "(string \<times> int) list \<Rightarrow> string list \<Rightarrow> BuildStep \<Rightarrow> int" where
  "spec_effective_level current_levels queue_buildings s =
     dict_get current_levels (building s) 0 + int (count_list queue_buildings (building s))"

section \<open>app.py and core/humanizer.py: wake-up computation\<close>

text \<open>
  \<open>Humanizer.random_cycle_delay\<close> returns \<open>random.uniform(low, high)\<close>, which the Python
  library computes as \<open>low + (high - low) * random()\<close>.  The draw \<open>random()\<close> is the
  parameter \<open>u\<close>.
\<close>

fun random_cycle_delay :: "real \<times> real \<Rightarrow> real \<Rightarrow> real" where
  "random_cycle_delay (low, high) u = low + (high - low) * u"

text \<open>Python's \<open>min(xs, key=...)\<close> on a non-empty list: the first element of least key.\<close>

fun min_by_key :: "('a \<Rightarrow> real) \<Rightarrow> 'a \<Rightarrow> 'a list \<Rightarrow> 'a" where
  "min_by_key key best [] = best"
| "min_by_key key best (x # xs) = min_by_key key (if key x < key best then x else best) xs"

text \<open>
  Lines 437 to 467 of \<open>_main_loop\<close>: from the four waits to \<open>earliest_name\<close> and
  \<open>delay\<close>.  \<open>active_delay\<close> is \<open>config.bot.active_delay\<close>; both branches draw once.
\<close>

definition wake_up :: "real \<Rightarrow> real \<Rightarrow> real \<Rightarrow> real \<Rightarrow> real \<times> real \<Rightarrow> real \<Rightarrow> string option \<times> real" where
  "wake_up scavenge_wait build_queue_wait resource_wait farm_wait active_delay u =
     (let wait_events =
            (if scavenge_wait > 30 then [(''scavenge'', scavenge_wait)] else [])
          @ (if build_queue_wait > 30 then [(''build_queue'', build_queue_wait)] else [])
          @ (if resource_wait > 30 then [(''resources'', resource_wait)] else [])
          @ (if farm_wait > 30 then [(''farming'', farm_wait)] else []);
          earliest =
            (case wait_events of
               [] \<Rightarrow> (None, 0)
             | e # es \<Rightarrow> (let m = min_by_key snd e es in (Some (fst m), snd m)))
      in case fst earliest of
           Some name \<Rightarrow>
             if name \<noteq> [] then (Some name, snd earliest + random_cycle_delay (10, 30) u)
             else (Some name, random_cycle_delay active_delay u)
         | None \<Rightarrow> (None, random_cycle_delay active_delay u))"

text \<open>The specification's sentence: of the four candidate events, those at most 30 seconds away are discarded.\<close>

definition spec_remaining_events :: "real \<Rightarrow> real \<Rightarrow> real \<Rightarrow> real \<Rightarrow> (string \<times> real) list" where
  "spec_remaining_events s b r f =
     filter (\<lambda>e. \<not> snd e \<le> 30)
       [(''scavenge'', s), (''build_queue'', b), (''resources'', r), (''farming'', f)]"

section \<open>core/bot\_protection.py: alert throttling\<close>





section \<open>managers/building\_manager.py: the building cycle\<close>

record BuildQueue =
  queue_building :: string
  target_level :: int
  finish_time :: "real option"

text \<open>
  The dictionary returned by \<open>get_hq_state\<close>, with its keys \<open>levels\<close>, \<open>queue\<close>,
  \<open>available\<close> (per building, the \<open>cost\<close> entry) and \<open>premium\<close>.
\<close>

record hq_state =
  hq_levels :: "(string \<times> int) list"
  hq_queue :: "BuildQueue list"
  hq_available :: "(string \<times> Resources) list"
  hq_premium :: bool

record BuildResult =
  ordered :: bool
  building_name :: string
  queue_finish_ts :: real
  resource_wait :: real

definition BuildResult_init :: BuildResult where
  "BuildResult_init = \<lparr>ordered = False, building_name = [], queue_finish_ts = 0, resource_wait = 0\<rparr>"

record BuildingManager =
  enabled :: bool
  mode :: string
  build_steps :: "BuildStep list"
  target_levels :: "(string \<times> int) list"
  priority_order :: "string list"

text \<open>Of \<open>Village\<close>, the two fields \<open>run\<close> reads.\<close>

record Village =
  resources :: Resources
  production :: Resources

text \<open>
  The driver: \<open>upgrade_building\<close> returns \<open>True\<close> (and \<open>run\<close> then reads the state
  again with \<open>get_hq_state\<close>), returns \<open>False\<close>, or raises \<open>BuildQueueFullError\<close>.
  The driver is a parameter of the cycle, a function from the state it is called in and
  the building to one of these outcomes.
\<close>

datatype upgrade_outcome = Ordered hq_state | NotOrdered | QueueFull

fun walk_priority :: "(string \<times> int) list \<Rightarrow> (string \<times> int) list \<Rightarrow> string list \<Rightarrow> (string \<times> int \<times> int) option" where
  "walk_priority tgts current_levels [] = None"
| "walk_priority tgts current_levels (b # bs) =
     (case map_of tgts b of
        None \<Rightarrow> walk_priority tgts current_levels bs
      | Some target \<Rightarrow>
          let current = dict_get current_levels b 0
          in if current < target then Some (b, current, target)
             else walk_priority tgts current_levels bs)"

definition pick_next_building_priority :: "BuildingManager \<Rightarrow> (string \<times> int) list \<Rightarrow> (string \<times> int \<times> int) option" where
  "pick_next_building_priority self current_levels =
     walk_priority (target_levels self) current_levels (priority_order self)"

definition pick_next_building ::
  "BuildingManager \<Rightarrow> (string \<times> int) list \<Rightarrow> string list \<Rightarrow> (string \<times> int \<times> int) option" where
  "pick_next_building self current_levels queue_buildings =
     (if mode self = ''sequential''
      then pick_next_building_sequential (build_steps self) current_levels queue_buildings
      else pick_next_building_priority self current_levels)"

text \<open>\<open>max_queue = 2 if state.get("premium", False) else 2\<close>.\<close>

definition max_queue :: "hq_state \<Rightarrow> nat" where
  "max_queue state = (if hq_premium state then 2 else 2)"

text \<open>The loop over the queue entries that raises \<open>queue_finish_ts\<close> to the latest finish time.\<close>

definition record_finish :: "BuildQueue list \<Rightarrow> real \<Rightarrow> real" where
  "record_finish q ts0 =
     fold (\<lambda>entry ts. case finish_time entry of
                          None \<Rightarrow> ts
                        | Some t \<Rightarrow> if t > ts then t else ts) q ts0"

text \<open>The affordability check before an order: go on, stop with a wait, or stop because
  buildings were parsed and this one is not among them.\<close>

datatype cost_check = Proceed | Insufficient real | NotListed

definition check_cost :: "Village \<Rightarrow> hq_state \<Rightarrow> string \<Rightarrow> cost_check" where
  "check_cost village state name =
     (let available = hq_available state
      in case map_of available name of
           Some cost \<Rightarrow>
             if \<not> can_afford (resources village) cost
             then Insufficient (calculate_resource_wait (resources village) cost (production village))
             else Proceed
         | None \<Rightarrow> if available \<noteq> [] then NotListed else Proceed)"

text \<open>
  The multi-queue loop \<open>for _attempt in range(max_queue)\<close>; the third argument counts
  the attempts left.  The loop state is the HQ state, the result so far, and the buildings
  whose order the driver accepted, in order.
\<close>

fun attempts ::
  "(hq_state \<Rightarrow> string \<Rightarrow> upgrade_outcome) \<Rightarrow> BuildingManager \<Rightarrow> Village \<Rightarrow> nat \<Rightarrow> nat \<Rightarrow>
   hq_state \<times> BuildResult \<times> string list \<Rightarrow> hq_state \<times> BuildResult \<times> string list" where
  "attempts hq self village mq 0 st = st"
| "attempts hq self village mq (Suc n) (state, result, orders) =
     (let queue = hq_queue state;
          result1 = result\<lparr>queue_finish_ts := record_finish queue (queue_finish_ts result)\<rparr>
      in if length queue \<ge> mq then (state, result1, orders)
         else
           case pick_next_building self (hq_levels state) (map queue_building queue) of
             None \<Rightarrow> (state, result1, orders)
           | Some (name, current_level, target) \<Rightarrow>
               (case check_cost village state name of
                  Insufficient wait \<Rightarrow>
                    (state, result1\<lparr>resource_wait := wait, building_name := name\<rparr>, orders)
                | NotListed \<Rightarrow> (state, result1, orders)
                | Proceed \<Rightarrow>
                    (case hq state name of
                       Ordered state' \<Rightarrow>
                         attempts hq self village mq n
                           (state', result1\<lparr>ordered := True, building_name := name\<rparr>, orders @ [name])
                     | NotOrdered \<Rightarrow> (state, result1, orders)
                     | QueueFull \<Rightarrow> (state, result1, orders))))"

text \<open>
  \<open>BuildingManager.run\<close> from the state \<open>state0\<close> that the first \<open>get_hq_state\<close>
  returns.  The result is the \<open>BuildResult\<close> and the accepted orders.
\<close>

definition run ::
  "(hq_state \<Rightarrow> string \<Rightarrow> upgrade_outcome) \<Rightarrow> BuildingManager \<Rightarrow> Village \<Rightarrow> hq_state \<Rightarrow> BuildResult \<times> string list" where
  "run hq self village state0 =
     (if \<not> enabled self then (BuildResult_init, [])
      else if target_levels self = [] \<and> build_steps self = [] then (BuildResult_init, [])
      else
        case attempts hq self village (max_queue state0) (max_queue state0) (state0, BuildResult_init, []) of
          (state, result, orders) \<Rightarrow>
            (result\<lparr>queue_finish_ts := record_finish (hq_queue state) (queue_finish_ts result)\<rparr>, orders))"

text \<open>
  A game for running the cycle: as \<open>upgrade_building\<close> does, it refuses with
  \<open>BuildQueueFullError\<close> when two entries are queued, and otherwise accepts the order and
  shows it at the end of the queue.
\<close>

definition accepting_game :: "hq_state \<Rightarrow> string \<Rightarrow> upgrade_outcome" where
  "accepting_game state name =
     (if length (hq_queue state) \<ge> 2 then QueueFull
      else Ordered (state\<lparr>hq_queue := hq_queue state @
             [\<lparr>queue_building = name, target_level = dict_get (hq_levels state) name 0 + 1,
               finish_time = None\<rparr>]\<rparr>))"

section \<open>core/scavenge\_formulas.py\<close>

definition LOOT_RATIOS :: "(int \<times> real) list" where
  "LOOT_RATIOS = [(1, 0.10), (2, 0.25), (3, 0.50), (4, 0.75)]"

definition SCAVENGE_UNITS :: "string list" where
  "SCAVENGE_UNITS = [''spear'', ''sword'', ''axe'', ''archer'', ''light'', ''marcher'', ''heavy'']"


text \<open>
  \<open>equal_runtime_weights\<close>.  The argument is a Python set; it is given as the list of
  its elements in iteration order.
\<close>

definition equal_runtime_weights :: "int list \<Rightarrow> (int \<times> real) list" where
  "equal_runtime_weights tiers =
     map (\<lambda>tier. (tier, 1 / the (map_of LOOT_RATIOS tier)))
         (filter (\<lambda>tier. tier \<in> set (map fst LOOT_RATIOS)) tiers)"

text \<open>
  The inner loop of \<open>allocate_by_ratio\<close> over \<open>units_by_carry\<close> for one tier.  The
  loop state is the tier's dictionary \<open>allocations[tier]\<close>, \<open>remaining\<close> and
  \<open>filled\<close>; \<open>continue\<close> is the recursive call on the rest and \<open>break\<close> returns the
  state.  \<open>remaining[unit] -= take\<close> is written with \<open>avail\<close>, which is the same
  value because \<open>unit\<close> is a key of \<open>remaining\<close>.
\<close>

fun fill_units ::
  "real \<Rightarrow> (string \<times> int) list \<Rightarrow> string list \<Rightarrow>
   (string \<times> int) list \<times> (string \<times> int) list \<times> real \<Rightarrow>
   (string \<times> int) list \<times> (string \<times> int) list \<times> real" where
  "fill_units target carries [] st = st"
| "fill_units target carries (unit # units) (alloc, remaining, filled) =
     (let avail = dict_get remaining unit 0
      in if avail \<le> 0 then fill_units target carries units (alloc, remaining, filled)
         else
           let carry_per = dict_get carries unit 25
           in if carry_per \<le> 0 then fill_units target carries units (alloc, remaining, filled)
              else
                let gap = target - filled
                in if gap \<le> 0 then (alloc, remaining, filled)
                   else
                     let take = min avail \<lfloor>gap / real_of_int carry_per\<rfloor>
                     in if take > 0
                        then fill_units target carries units
                               (AList.update unit take alloc,
                                AList.update unit (avail - take) remaining,
                                filled + real_of_int (take * carry_per))
                        else fill_units target carries units (alloc, remaining, filled))"

text \<open>
  The outer loop over the tiers, highest first, skipping the dump tier.  Python's
  \<open>sorted(..., key=..., reverse=True)\<close> is stable, as is \<^const>\<open>sort_key\<close> on the negated
  key.  \<open>option_weights[tier]\<close> and \<open>allocations[tier]\<close> are reads at keys that exist.
\<close>

fun fill_tiers ::
  "int \<Rightarrow> (int \<times> real) list \<Rightarrow> real \<Rightarrow> (string \<times> int) list \<Rightarrow> int \<Rightarrow> int list \<Rightarrow>
   (int \<times> (string \<times> int) list) list \<times> (string \<times> int) list \<Rightarrow>
   (int \<times> (string \<times> int) list) list \<times> (string \<times> int) list" where
  "fill_tiers total_carry option_weights weight_sum carries dump_tier [] st = st"
| "fill_tiers total_carry option_weights weight_sum carries dump_tier (tier # tiers) (allocations, remaining) =
     (if tier = dump_tier
      then fill_tiers total_carry option_weights weight_sum carries dump_tier tiers (allocations, remaining)
      else
        let target = real_of_int total_carry * the (map_of option_weights tier) / weight_sum;
            units_by_carry = sort_key (\<lambda>u. - dict_get carries u 25) (map fst remaining)
        in case fill_units target carries units_by_carry (dict_get allocations tier [], remaining, 0) of
             (alloc, remaining', filled) \<Rightarrow>
               fill_tiers total_carry option_weights weight_sum carries dump_tier tiers
                 (AList.update tier alloc allocations, remaining'))"

text \<open>The last loop: every positive remaining count is added to the dump tier.\<close>

definition dump_remaining ::
  "int \<Rightarrow> (string \<times> int) list \<Rightarrow> (int \<times> (string \<times> int) list) list \<Rightarrow> (int \<times> (string \<times> int) list) list" where
  "dump_remaining dump_tier remaining allocations =
     fold (\<lambda>(unit, count) allocations.
             if count > 0
             then AList.update dump_tier
                    (AList.update unit (dict_get (dict_get allocations dump_tier []) unit 0 + count)
                       (dict_get allocations dump_tier []))
                    allocations
             else allocations)
       remaining allocations"

text \<open>The pool: the scavengeable units of \<open>available\<close> with a positive count.\<close>

definition scavenge_pool :: "(string \<times> int) list \<Rightarrow> (string \<times> int) list" where
  "scavenge_pool available = filter (\<lambda>(u, c). u \<in> set SCAVENGE_UNITS \<and> c > 0) available"

definition pool_carry :: "(string \<times> int) list \<Rightarrow> (string \<times> int) list \<Rightarrow> int" where
  "pool_carry carries pool = sum_list (map (\<lambda>(u, c). c * dict_get carries u 25) pool)"

definition allocate_by_ratio ::
  "(string \<times> int) list \<Rightarrow> (int \<times> real) list \<Rightarrow> (string \<times> int) list option \<Rightarrow>
   (int \<times> (string \<times> int) list) list" where
  "allocate_by_ratio available option_weights unit_carries =
     (let weight_sum = sum_list (map snd option_weights)
      in if weight_sum \<le> 0 then []
         else
           let pool = scavenge_pool available
           in if pool = [] then []
              else
                let carries = (case unit_carries of None \<Rightarrow> [] | Some d \<Rightarrow> d);
                    total_carry = pool_carry carries pool
                in if total_carry \<le> 0 then []
                   else
                     let dump_tier = Min (set (map fst option_weights));
                         allocations = map (\<lambda>(tier, w). (tier, [])) option_weights;
                         remaining = pool
                     in case fill_tiers total_carry option_weights weight_sum carries dump_tier
                               (rev (sort (map fst option_weights))) (allocations, remaining) of
                          (allocations', remaining') \<Rightarrow>
                            filter (\<lambda>(t, troops). troops \<noteq> [])
                              (dump_remaining dump_tier remaining' allocations'))"

text \<open>The number of troops of a unit that an allocation sends out, over all tiers.\<close>

definition allocated :: "(int \<times> (string \<times> int) list) list \<Rightarrow> string \<Rightarrow> int" where
  "allocated allocations u = sum_list (map (\<lambda>(t, troops). dict_get troops u 0) allocations)"







section \<open>managers/troop\_manager.py: targets mode\<close>

definition BARRACKS_UNITS :: "string list" where
  "BARRACKS_UNITS = [''spear'', ''sword'', ''axe'', ''archer'']"

definition STABLE_UNITS :: "string list" where
  "STABLE_UNITS = [''spy'', ''light'', ''marcher'', ''heavy'']"

record TrainQueue =
  unit :: string
  count :: int

text \<open>
  \<open>_get_barracks_needs\<close>, from the configured targets and what the barracks screen
  returned: the troop counts and the training queue.
\<close>

definition get_barracks_needs ::
  "(string \<times> int) list \<Rightarrow> (string \<times> int) list \<Rightarrow> TrainQueue list \<Rightarrow> (string \<times> int) list" where
  "get_barracks_needs targets current queue =
     (let queued = fold (\<lambda>entry q. AList.update (unit entry) (dict_get q (unit entry) 0 + count entry) q)
                     queue []
      in fold (\<lambda>unit_name needs.
                 let target = dict_get targets unit_name 0
                 in if target \<le> 0 then needs
                    else
                      let owned = dict_get current unit_name 0 + dict_get queued unit_name 0;
                          deficit = target - owned
                      in if deficit > 0 then AList.update unit_name (min deficit 50) needs
                         else needs)
           BARRACKS_UNITS [])"

text \<open>
  \<open>_get_stable_needs\<close>, from the configured targets and the troop counts the stable
  screen returned; the function reads no queue.
\<close>

definition get_stable_needs :: "(string \<times> int) list \<Rightarrow> (string \<times> int) list \<Rightarrow> (string \<times> int) list" where
  "get_stable_needs targets current =
     fold (\<lambda>unit_name needs.
             let target = dict_get targets unit_name 0
             in if target \<le> 0 then needs
                else
                  let owned = dict_get current unit_name 0;
                      deficit = target - owned
                  in if deficit > 0 then AList.update unit_name (min deficit 25) needs
                     else needs)
       STABLE_UNITS []"

text \<open>What one pass of the loop of \<open>_get_stable_needs\<close> stores for a unit, if anything.\<close>

definition stable_batch :: "(string \<times> int) list \<Rightarrow> (string \<times> int) list \<Rightarrow> string \<Rightarrow> int option" where
  "stable_batch targets current u =
     (if 0 < dict_get targets u 0 \<and> 0 < dict_get targets u 0 - dict_get current u 0
      then Some (min (dict_get targets u 0 - dict_get current u 0) 25) else None)"

section \<open>Properties\<close>

lemma add_log_logs:
  "logs (fst (add_log now msg lvl st)) =
     drop (length (logs st) + 1 - 200) (logs st @ [entry_of (now, msg, lvl)])"
  by (simp add: add_log_def entry_of_def Let_def)

lemma add_logs_general:
  "length (logs st) \<le> 200 \<Longrightarrow>
   logs (add_logs st ins) =
     drop (length (logs st) + length ins - 200) (logs st @ map entry_of ins)"
proof (induction ins arbitrary: st)
  case Nil
  then show ?case by simp
next
  case (Cons i ins)
  obtain now msg lvl where i: "i = (now, msg, lvl)" by (cases i) auto
  let ?st' = "fst (add_log now msg lvl st)"
  have l': "logs ?st' = drop (length (logs st) + 1 - 200) (logs st @ [entry_of i])"
    by (simp add: add_log_logs i)
  have len': "length (logs ?st') = min 200 (length (logs st) + 1)"
    using Cons.prems by (simp add: l')
  have le': "length (logs ?st') \<le> 200" by (simp add: len')
  have "logs (add_logs st (i # ins)) = logs (add_logs ?st' ins)"
    by (simp add: i)
  also have "\<dots> = drop (length (logs ?st') + length ins - 200) (logs ?st' @ map entry_of ins)"
    by (rule Cons.IH [OF le'])
  also have "\<dots> = drop (length (logs st) + length (i # ins) - 200)
                      (logs st @ map entry_of (i # ins))"
  proof (cases "length (logs st) + 1 \<le> 200")
    case True
    then show ?thesis by (simp add: l' len')
  next
    case False
    with Cons.prems have eq: "length (logs st) = 200" by simp
    then show ?thesis
      by (simp add: l' len' drop_Suc)
  qed
  finally show ?case .
qed

text \<open>
  Claim C9.  Starting from a fresh store, after any sequence of \<open>add_log\<close> insertions the
  log list holds at most 200 entries, and it is exactly the last 200 inserted entries (all
  of them when fewer were inserted) in insertion order: the oldest entries are dropped.
\<close>

theorem C9_log_ring_bound:
  "length (logs (add_logs PanelStateStore_init ins)) \<le> 200
   \<and> logs (add_logs PanelStateStore_init ins) = drop (length ins - 200) (map entry_of ins)"
  using add_logs_general [of PanelStateStore_init ins]
  by (simp add: PanelStateStore_init_def)

lemma resource_wait_loop_bounds:
  "0 \<le> mw \<Longrightarrow> 0 \<le> resource_wait_loop cur cost prd rts mw \<and> resource_wait_loop cur cost prd rts mw \<le> 3600"
  by (induction cur cost prd rts mw rule: resource_wait_loop.induct) (auto simp: Let_def)

lemma spec_wait_nonneg:
  "(0 < spec_deficit cur cost rt \<longrightarrow> 0 < getattr prd rt) \<Longrightarrow> 0 \<le> spec_wait cur cost prd rt"
  by (cases "0 < spec_deficit cur cost rt") (auto simp: spec_wait_def spec_deficit_def max_def)

lemma resource_wait_loop_max:
  "\<forall>rt\<in>set rts. 0 < spec_deficit cur cost rt \<longrightarrow> 0 < getattr prd rt \<Longrightarrow> 0 \<le> mw \<Longrightarrow>
   resource_wait_loop cur cost prd rts mw =
     min (fold (\<lambda>rt m. max m (spec_wait cur cost prd rt)) rts mw) 3600"
proof (induction cur cost prd rts mw rule: resource_wait_loop.induct)
  case (1 current cost rates max_wait)
  then show ?case by simp
next
  case (2 current cost rates rt rts max_wait)
  have rest: "\<forall>rt\<in>set rts. 0 < spec_deficit current cost rt \<longrightarrow> 0 < getattr rates rt"
    using "2.prems" by simp
  show ?case
  proof (cases "getattr cost rt - getattr current rt \<le> 0")
    case True
    then have d0: "spec_wait current cost rates rt = 0"
      by (simp add: spec_wait_def spec_deficit_def max_def)
    have m: "max max_wait (spec_wait current cost rates rt) = max_wait"
      using d0 "2.prems"(2) by simp
    show ?thesis
      using True "2.IH"(1) [OF refl refl refl True rest "2.prems"(2)] m by (simp add: Let_def)
  next
    case False
    then have dpos: "0 < spec_deficit current cost rt"
      by (simp add: spec_deficit_def)
    with "2.prems" have rpos: "0 < getattr rates rt" by simp
    have w: "spec_wait current cost rates rt =
             real_of_int (getattr cost rt - getattr current rt) / (real_of_int (getattr rates rt) / 3600)"
      using False by (simp add: spec_wait_def spec_deficit_def max_def)
    have wpos: "0 \<le> spec_wait current cost rates rt"
      using dpos rpos by (simp add: spec_wait_nonneg)
    show ?thesis
    proof (cases "spec_wait current cost rates rt > max_wait")
      case True
      have m: "max max_wait (spec_wait current cost rates rt) = spec_wait current cost rates rt"
        using True by simp
      have nr: "\<not> getattr rates rt \<le> 0" using rpos by simp
      show ?thesis
        using False nr True "2.IH"(2) [OF refl refl refl False refl nr refl, of ] rest wpos m w
        by (simp add: Let_def)
    next
      case F2: False
      have m: "max max_wait (spec_wait current cost rates rt) = max_wait"
        using F2 by simp
      have nr: "\<not> getattr rates rt \<le> 0" using rpos by simp
      show ?thesis
        using False nr F2 "2.IH"(3) [OF refl refl refl False refl nr refl] rest "2.prems"(2) m w
        by (simp add: Let_def)
    qed
  qed
qed

lemma resource_wait_loop_no_production:
  "\<exists>rt\<in>set rts. 0 < spec_deficit cur cost rt \<and> getattr prd rt \<le> 0 \<Longrightarrow>
   resource_wait_loop cur cost prd rts mw = 3600"
proof (induction rts arbitrary: mw)
  case Nil
  then show ?case by simp
next
  case (Cons rt rts)
  show ?case
  proof (cases "0 < spec_deficit cur cost rt \<and> getattr prd rt \<le> 0")
    case True
    then show ?thesis by (auto simp: spec_deficit_def Let_def max_def split: if_splits)
  next
    case False
    with Cons.prems have "\<exists>rt\<in>set rts. 0 < spec_deficit cur cost rt \<and> getattr prd rt \<le> 0"
      by auto
    then have "resource_wait_loop cur cost prd rts m = 3600" for m
      by (rule Cons.IH)
    then show ?thesis by (simp add: Let_def)
  qed
qed

lemma res_type_all: "(\<forall>rt. P rt) \<longleftrightarrow> P Wood \<and> P Stone \<and> P Iron"
  by (metis res_type.exhaust)

lemma res_type_ex: "(\<exists>rt. P rt) \<longleftrightarrow> P Wood \<or> P Stone \<or> P Iron"
  by (metis res_type.exhaust)

text \<open>
  Claim C5.  When every resource with a positive deficit has positive production, the wait
  is the maximum over the three resource types of \<open>deficit / (production / 3600)\<close>
  with \<open>deficit = max 0 (cost - have)\<close>, capped at 3600.  When some resource with a
  positive deficit has no production (a rate of zero or less) the wait is 3600.  The wait
  always lies between 0 and 3600, and it is 0 when the cost is affordable.  For current
  (0, 500, 500), cost (100, 100, 100) and production 360 per hour each, the wait is 1000.
\<close>

theorem C5_resource_wait:
  "((\<forall>rt. 0 < spec_deficit current cost rt \<longrightarrow> 0 < getattr rates rt) \<longrightarrow>
      calculate_resource_wait current cost rates =
        min (Max (spec_wait current cost rates ` {Wood, Stone, Iron})) 3600)
   \<and> ((\<exists>rt. 0 < spec_deficit current cost rt \<and> getattr rates rt \<le> 0) \<longrightarrow>
      calculate_resource_wait current cost rates = 3600)
   \<and> 0 \<le> calculate_resource_wait current cost rates
   \<and> calculate_resource_wait current cost rates \<le> 3600
   \<and> (can_afford current cost \<longrightarrow> calculate_resource_wait current cost rates = 0)
   \<and> calculate_resource_wait \<lparr>wood = 0, stone = 500, iron = 500\<rparr>
        \<lparr>wood = 100, stone = 100, iron = 100\<rparr> \<lparr>wood = 360, stone = 360, iron = 360\<rparr> = 1000"
proof (intro conjI impI)
  assume h: "\<forall>rt. 0 < spec_deficit current cost rt \<longrightarrow> 0 < getattr rates rt"
  have nn: "0 \<le> spec_wait current cost rates Wood"
    using h by (intro spec_wait_nonneg) blast
  have "calculate_resource_wait current cost rates =
          min (fold (\<lambda>rt m. max m (spec_wait current cost rates rt)) [Wood, Stone, Iron] 0) 3600"
    unfolding calculate_resource_wait_def
    by (rule resource_wait_loop_max) (use h in simp_all)
  also have "\<dots> = min (Max (spec_wait current cost rates ` {Wood, Stone, Iron})) 3600"
    using nn by (simp add: max.commute max.left_commute max.assoc)
  finally show "calculate_resource_wait current cost rates =
        min (Max (spec_wait current cost rates ` {Wood, Stone, Iron})) 3600" .
next
  assume "\<exists>rt. 0 < spec_deficit current cost rt \<and> getattr rates rt \<le> 0"
  then have "\<exists>rt\<in>set [Wood, Stone, Iron]. 0 < spec_deficit current cost rt \<and> getattr rates rt \<le> 0"
    by (simp add: res_type_ex)
  then show "calculate_resource_wait current cost rates = 3600"
    unfolding calculate_resource_wait_def by (rule resource_wait_loop_no_production)
next
  show "0 \<le> calculate_resource_wait current cost rates"
    unfolding calculate_resource_wait_def
    by (rule resource_wait_loop_bounds [THEN conjunct1]) simp
next
  show "calculate_resource_wait current cost rates \<le> 3600"
    unfolding calculate_resource_wait_def
    by (rule resource_wait_loop_bounds [THEN conjunct2]) simp
next
  assume "can_afford current cost"
  then show "calculate_resource_wait current cost rates = 0"
    by (simp add: can_afford_def calculate_resource_wait_def Let_def)
next
  show "calculate_resource_wait \<lparr>wood = 0, stone = 500, iron = 500\<rparr>
        \<lparr>wood = 100, stone = 100, iron = 100\<rparr> \<lparr>wood = 360, stone = 360, iron = 360\<rparr> = 1000"
    by (simp add: calculate_resource_wait_def Let_def)
qed

text \<open>
  The hypotheses of C5 at concrete inputs: two deficits with production (the larger wait,
  2000, wins), a deficit without production (3600), and an affordable cost (0).
\<close>

theorem C5_resource_wait_witness:
  "calculate_resource_wait \<lparr>wood = 0, stone = 0, iron = 500\<rparr>
        \<lparr>wood = 100, stone = 200, iron = 100\<rparr> \<lparr>wood = 360, stone = 360, iron = 360\<rparr> = 2000
   \<and> calculate_resource_wait \<lparr>wood = 0, stone = 500, iron = 500\<rparr>
        \<lparr>wood = 100, stone = 100, iron = 100\<rparr> \<lparr>wood = 0, stone = 360, iron = 360\<rparr> = 3600
   \<and> can_afford \<lparr>wood = 500, stone = 500, iron = 500\<rparr> \<lparr>wood = 100, stone = 100, iron = 100\<rparr>
   \<and> calculate_resource_wait \<lparr>wood = 500, stone = 500, iron = 500\<rparr>
        \<lparr>wood = 100, stone = 100, iron = 100\<rparr> \<lparr>wood = 100, stone = 100, iron = 100\<rparr> = 0"
proof -
  note c = C5_resource_wait
  show ?thesis
    using c [of "\<lparr>wood = 0, stone = 0, iron = 500\<rparr>"
           "\<lparr>wood = 100, stone = 200, iron = 100\<rparr>" "\<lparr>wood = 360, stone = 360, iron = 360\<rparr>"]
          c [of "\<lparr>wood = 0, stone = 500, iron = 500\<rparr>"
           "\<lparr>wood = 100, stone = 100, iron = 100\<rparr>" "\<lparr>wood = 0, stone = 360, iron = 360\<rparr>"]
          c [of "\<lparr>wood = 500, stone = 500, iron = 500\<rparr>"
           "\<lparr>wood = 100, stone = 100, iron = 100\<rparr>" "\<lparr>wood = 100, stone = 100, iron = 100\<rparr>"]
    by (simp add: res_type_all res_type_ex spec_deficit_def spec_wait_def can_afford_def)
qed

lemma dict_get_update:
  "dict_get (AList.update k v d) k' dflt = (if k' = k then v else dict_get d k' dflt)"
  by (simp add: dict_get_def update_conv')

lemma queued_counts_fold:
  "dict_get (fold (\<lambda>b qc. AList.update b (dict_get qc b 0 + 1) qc) q acc) b 0 =
     dict_get acc b 0 + int (count_list q b)"
  by (induction q arbitrary: acc) (simp_all add: dict_get_update)

lemma queued_counts_count:
  "dict_get (queued_counts q) b 0 = int (count_list q b)"
  by (simp add: queued_counts_def queued_counts_fold) (simp add: dict_get_def)

lemma walk_steps_None:
  "walk_steps lv qc steps = None \<longleftrightarrow>
     (\<forall>s\<in>set steps. level s \<le> dict_get lv (building s) 0 + dict_get qc (building s) 0)"
  by (induction steps) (auto simp: Let_def)

lemma walk_steps_Some:
  "walk_steps lv qc steps = Some (b, cur, tgt) \<Longrightarrow>
     \<exists>pre s post. steps = pre @ s # post \<and> b = building s \<and> cur = dict_get lv (building s) 0
        \<and> tgt = level s
        \<and> dict_get lv (building s) 0 + dict_get qc (building s) 0 < level s
        \<and> (\<forall>e\<in>set pre. level e \<le> dict_get lv (building e) 0 + dict_get qc (building e) 0)"
proof (induction steps)
  case Nil
  then show ?case by simp
next
  case (Cons st steps)
  show ?case
  proof (cases "dict_get lv (building st) 0 + dict_get qc (building st) 0 < level st")
    case True
    with Cons.prems have "b = building st" "cur = dict_get lv (building st) 0" "tgt = level st"
      by (auto simp: Let_def)
    with True show ?thesis by (intro exI [of _ "[]"] exI [of _ st] exI [of _ steps]) auto
  next
    case False
    with Cons.prems have "walk_steps lv qc steps = Some (b, cur, tgt)"
      by (simp add: Let_def)
    from Cons.IH [OF this] obtain pre s post where
      h: "steps = pre @ s # post" "b = building s" "cur = dict_get lv (building s) 0" "tgt = level s"
         "dict_get lv (building s) 0 + dict_get qc (building s) 0 < level s"
         "\<forall>e\<in>set pre. level e \<le> dict_get lv (building e) 0 + dict_get qc (building e) 0"
      by blast
    show ?thesis
      using h False by (intro exI [of _ "st # pre"] exI [of _ s] exI [of _ post]) auto
  qed
qed

text \<open>
  Claim C2.  The planner returns the first step, in list order, whose effective level
  (current level plus number of occurrences of the building in the queue) is strictly
  below the step's level: the returned step satisfies \<open>current < target\<close>, every step
  before it has \<open>current + queued \<ge> target\<close>, and nothing is returned exactly when
  every step has.  For steps (main, 3), (wood, 1), (stone, 1), levels main = 1 and queue
  main, main the pick is wood.
\<close>

theorem C2_sequential_selection:
  "(case pick_next_building_sequential steps levels queue of
      None \<Rightarrow> (\<forall>s\<in>set steps. level s \<le> spec_effective_level levels queue s)
    | Some (b, cur, tgt) \<Rightarrow>
        (\<exists>pre s post. steps = pre @ s # post
            \<and> b = building s \<and> cur = dict_get levels (building s) 0 \<and> tgt = level s
            \<and> spec_effective_level levels queue s < level s
            \<and> cur < tgt
            \<and> (\<forall>e\<in>set pre. level e \<le> spec_effective_level levels queue e)))
   \<and> pick_next_building_sequential
        [\<lparr>building = ''main'', level = 3\<rparr>, \<lparr>building = ''wood'', level = 1\<rparr>,
         \<lparr>building = ''stone'', level = 1\<rparr>]
        [(''main'', 1)] [''main'', ''main''] = Some (''wood'', 0, 1)"
proof (intro conjI)
  show "case pick_next_building_sequential steps levels queue of
      None \<Rightarrow> (\<forall>s\<in>set steps. level s \<le> spec_effective_level levels queue s)
    | Some (b, cur, tgt) \<Rightarrow>
        (\<exists>pre s post. steps = pre @ s # post
            \<and> b = building s \<and> cur = dict_get levels (building s) 0 \<and> tgt = level s
            \<and> spec_effective_level levels queue s < level s
            \<and> cur < tgt
            \<and> (\<forall>e\<in>set pre. level e \<le> spec_effective_level levels queue e))"
  proof (cases "pick_next_building_sequential steps levels queue")
    case None
    then have "walk_steps levels (queued_counts queue) steps = None"
      by (simp add: pick_next_building_sequential_def)
    then have "\<forall>s\<in>set steps. level s \<le> spec_effective_level levels queue s"
      by (simp add: walk_steps_None spec_effective_level_def queued_counts_count)
    then show ?thesis
      unfolding None by simp
  next
    case (Some r)
    obtain b cur tgt where r: "r = (b, cur, tgt)" by (cases r) auto
    from Some r have "walk_steps levels (queued_counts queue) steps = Some (b, cur, tgt)"
      by (simp add: pick_next_building_sequential_def)
    from walk_steps_Some [OF this] obtain pre s post where
      h: "steps = pre @ s # post" "b = building s" "cur = dict_get levels (building s) 0"
         "tgt = level s"
         "spec_effective_level levels queue s < level s"
         "\<forall>e\<in>set pre. level e \<le> spec_effective_level levels queue e"
      unfolding spec_effective_level_def queued_counts_count by blast
    have "cur < tgt"
      using h(3,4,5) by (simp add: spec_effective_level_def)
    with h show ?thesis
      unfolding Some r by (simp del: append_Cons) blast
  qed
next
  show "pick_next_building_sequential
        [\<lparr>building = ''main'', level = 3\<rparr>, \<lparr>building = ''wood'', level = 1\<rparr>,
         \<lparr>building = ''stone'', level = 1\<rparr>]
        [(''main'', 1)] [''main'', ''main''] = Some (''wood'', 0, 1)"
    by (simp add: pick_next_building_sequential_def queued_counts_def dict_get_def Let_def)
qed



text \<open>The selection property of C2 on the example: wood is picked after the step for main.\<close>

theorem C2_sequential_selection_witness:
  "\<exists>pre s post.
      [\<lparr>building = ''main'', level = 3\<rparr>, \<lparr>building = ''wood'', level = 1\<rparr>,
       \<lparr>building = ''stone'', level = 1\<rparr>] = pre @ s # post
      \<and> building s = ''wood'' \<and> level s = 1
      \<and> spec_effective_level [(''main'', 1)] [''main'', ''main''] s < level s
      \<and> list_all (\<lambda>e. level e \<le> spec_effective_level [(''main'', 1)] [''main'', ''main''] e) pre"
proof -
  note c = C2_sequential_selection [of
      "[\<lparr>building = ''main'', level = 3\<rparr>, \<lparr>building = ''wood'', level = 1\<rparr>,
         \<lparr>building = ''stone'', level = 1\<rparr>]" "[(''main'', 1)]" "[''main'', ''main'']"]
  from c [THEN conjunct1] obtain pre s post where
    "[\<lparr>building = ''main'', level = 3\<rparr>, \<lparr>building = ''wood'', level = 1\<rparr>,
       \<lparr>building = ''stone'', level = 1\<rparr>] = pre @ s # post"
    "''wood'' = building s" "1 = level s"
    "spec_effective_level [(''main'', 1)] [''main'', ''main''] s < level s"
    "\<forall>e\<in>set pre. level e \<le> spec_effective_level [(''main'', 1)] [''main'', ''main''] e"
    unfolding c [THEN conjunct2] option.case prod.case by blast
  then show ?thesis
    unfolding list_all_iff by (intro exI [of _ pre] exI [of _ s] exI [of _ post]) simp
qed

lemma min_by_key_snd:
  "snd (min_by_key snd e es) = Min (snd ` set (e # es)) \<and> min_by_key snd e es \<in> set (e # es)"
proof (induction es arbitrary: e)
  case Nil
  then show ?case by simp
next
  case (Cons x es)
  let ?e' = "if snd x < snd e then x else e"
  have IH: "snd (min_by_key snd ?e' es) = Min (snd ` set (?e' # es))"
           "min_by_key snd ?e' es \<in> set (?e' # es)"
    using Cons.IH [of ?e'] by blast+
  have "Min (snd ` set (?e' # es)) = Min (snd ` set (e # x # es))"
  proof (cases "es = []")
    case True
    then show ?thesis by (simp add: min_def)
  next
    case False
    then have ne: "snd ` set es \<noteq> {}" by simp
    have "Min (insert (snd e) (insert (snd x) (snd ` set es))) =
            min (min (snd e) (snd x)) (Min (snd ` set es))"
      using ne by (simp add: min.assoc)
    moreover have "Min (insert (snd ?e') (snd ` set es)) = min (snd ?e') (Min (snd ` set es))"
      using ne by simp
    moreover have "snd ?e' = min (snd e) (snd x)" by (simp add: min_def)
    ultimately show ?thesis by simp
  qed
  with IH show ?case by (auto split: if_splits)
qed

lemma wake_up_events:
  "(if s > 30 then [(''scavenge'', s)] else [])
          @ (if b > 30 then [(''build_queue'', b)] else [])
          @ (if r > 30 then [(''resources'', r)] else [])
          @ (if f > 30 then [(''farming'', f)] else []) = spec_remaining_events s b r f"
  by (simp add: spec_remaining_events_def not_le)

lemma spec_remaining_events_names:
  assumes "e \<in> set (spec_remaining_events s b r f)"
  shows "fst e \<noteq> []"
proof -
  have "set (spec_remaining_events s b r f) \<subseteq>
          set [(''scavenge'', s), (''build_queue'', b), (''resources'', r), (''farming'', f)]"
    unfolding spec_remaining_events_def by (rule filter_is_subset)
  with assms have "e \<in> set [(''scavenge'', s), (''build_queue'', b), (''resources'', r), (''farming'', f)]"
    by blast
  then show ?thesis by auto
qed

lemma wake_up_some:
  assumes "spec_remaining_events s b r f \<noteq> []"
  shows "\<exists>name. wake_up s b r f ad u =
            (Some name, Min (snd ` set (spec_remaining_events s b r f)) + random_cycle_delay (10, 30) u)
          \<and> (name, Min (snd ` set (spec_remaining_events s b r f))) \<in> set (spec_remaining_events s b r f)"
proof -
  from assms obtain e es where ev: "spec_remaining_events s b r f = e # es"
    by (cases "spec_remaining_events s b r f") auto
  let ?m = "min_by_key snd e es"
  have m: "snd ?m = Min (snd ` set (e # es))" "?m \<in> set (e # es)"
    using min_by_key_snd [of e es] by blast+
  have ne: "fst ?m \<noteq> []"
    using m(2) spec_remaining_events_names [of ?m s b r f] by (simp add: ev)
  have w: "wake_up s b r f ad u = (Some (fst ?m), snd ?m + random_cycle_delay (10, 30) u)"
    unfolding wake_up_def wake_up_events ev using ne by (simp add: Let_def)
  have "(fst ?m, snd ?m) \<in> set (e # es)" using m(2) by simp
  then show ?thesis
    unfolding ev w m(1) [symmetric] by blast
qed

lemma wake_up_none:
  assumes "spec_remaining_events s b r f = []"
  shows "wake_up s b r f ad u = (None, random_cycle_delay ad u)"
  unfolding wake_up_def wake_up_events assms by (simp add: Let_def)

lemma jitter_range:
  assumes "0 \<le> u" "u \<le> 1"
  shows "10 \<le> random_cycle_delay (10, 30) u \<and> random_cycle_delay (10, 30) u \<le> 30"
  using assms by simp

lemma wake_up_example:
  "wake_up 600 1200 300 50 ad u = (Some ''farming'', 50 + random_cycle_delay (10, 30) u)"
  by (simp add: wake_up_def Let_def)

text \<open>
  Claim C1.  Of the four candidate waits (scavenge return, build queue, resources, farm),
  those of at most 30 seconds are discarded.  If any remain, the delay is the least
  remaining wait plus one draw of \<open>random_cycle_delay (10, 30)\<close>, and the event named is
  one attaining that least wait; the draw lies in [10, 30].  If none remains, the delay is
  \<open>random_cycle_delay active_delay\<close>.  For the waits 600, 1200, 300 and 50 the event is
  farming and the delay lies in [60, 80].
\<close>

theorem C1_wake_up:
  "(spec_remaining_events s b r f \<noteq> [] \<longrightarrow>
      (\<exists>name. wake_up s b r f ad u =
            (Some name, Min (snd ` set (spec_remaining_events s b r f)) + random_cycle_delay (10, 30) u)
          \<and> (name, Min (snd ` set (spec_remaining_events s b r f))) \<in> set (spec_remaining_events s b r f)))
   \<and> (spec_remaining_events s b r f = [] \<longrightarrow>
        wake_up s b r f ad u = (None, random_cycle_delay ad u))
   \<and> (0 \<le> u \<and> u \<le> 1 \<longrightarrow>
        10 \<le> random_cycle_delay (10, 30) u \<and> random_cycle_delay (10, 30) u \<le> 30)
   \<and> (0 \<le> u \<and> u \<le> 1 \<longrightarrow>
        fst (wake_up 600 1200 300 50 ad u) = Some ''farming''
        \<and> 60 \<le> snd (wake_up 600 1200 300 50 ad u) \<and> snd (wake_up 600 1200 300 50 ad u) \<le> 80)"
proof (intro conjI impI)
  assume "spec_remaining_events s b r f \<noteq> []"
  then show "\<exists>name. wake_up s b r f ad u =
            (Some name, Min (snd ` set (spec_remaining_events s b r f)) + random_cycle_delay (10, 30) u)
          \<and> (name, Min (snd ` set (spec_remaining_events s b r f))) \<in> set (spec_remaining_events s b r f)"
    by (rule wake_up_some)
next
  assume "spec_remaining_events s b r f = []"
  then show "wake_up s b r f ad u = (None, random_cycle_delay ad u)"
    by (rule wake_up_none)
next
  assume "0 \<le> u \<and> u \<le> 1"
  then show "10 \<le> random_cycle_delay (10, 30) u" using jitter_range [of u] by blast
next
  assume "0 \<le> u \<and> u \<le> 1"
  then show "random_cycle_delay (10, 30) u \<le> 30" using jitter_range [of u] by blast
next
  show "fst (wake_up 600 1200 300 50 ad u) = Some ''farming''"
    by (simp add: wake_up_example)
next
  assume "0 \<le> u \<and> u \<le> 1"
  then show "60 \<le> snd (wake_up 600 1200 300 50 ad u)"
    using jitter_range [of u] by (simp add: wake_up_example del: random_cycle_delay.simps)
next
  assume "0 \<le> u \<and> u \<le> 1"
  then show "snd (wake_up 600 1200 300 50 ad u) \<le> 80"
    using jitter_range [of u] by (simp add: wake_up_example del: random_cycle_delay.simps)
qed

text \<open>
  C1 at concrete waits: one candidate discarded and farming chosen, all candidates
  discarded, and the upper end of the example's interval reached.
\<close>

theorem C1_wake_up_witness:
  "spec_remaining_events 600 1200 20 50 = [(''scavenge'', 600), (''build_queue'', 1200), (''farming'', 50)]
   \<and> wake_up 600 1200 20 50 (60, 120) (1/2) = (Some ''farming'', 70)
   \<and> spec_remaining_events 10 0 30 25 = []
   \<and> wake_up 10 0 30 25 (60, 120) (1/2) = (None, 90)
   \<and> snd (wake_up 600 1200 300 50 (60, 120) 1) = 80"
proof -
  have e1: "spec_remaining_events 600 1200 20 50 =
              [(''scavenge'', 600), (''build_queue'', 1200), (''farming'', 50)]"
    by (simp add: spec_remaining_events_def)
  have e2: "spec_remaining_events 10 0 30 25 = []"
    by (simp add: spec_remaining_events_def)
  have j: "random_cycle_delay (10, 30) (1/2) = 20" "random_cycle_delay (60, 120) (1/2) = 90"
    by simp_all
  show ?thesis
    using C1_wake_up [of 600 1200 20 50 "(60, 120)" "1/2"]
          C1_wake_up [of 10 0 30 25 "(60, 120)" "1/2"]
          C1_wake_up [of 0 0 0 0 "(60, 120)" 1]
    unfolding e1 e2 j by (auto simp: wake_up_example)
qed









lemma fold_update_map_of:
  "map_of (fold (\<lambda>u needs. case g u of None \<Rightarrow> needs | Some v \<Rightarrow> AList.update u v needs) us acc) x =
     (if x \<in> set us \<and> g x \<noteq> None then g x else map_of acc x)"
  by (induction us arbitrary: acc) (auto simp: update_conv' split: option.splits)

lemma get_stable_needs_fold:
  "get_stable_needs targets current =
     fold (\<lambda>u needs. case stable_batch targets current u of
                        None \<Rightarrow> needs | Some v \<Rightarrow> AList.update u v needs) STABLE_UNITS []"
  unfolding get_stable_needs_def
  by (rule arg_cong [where f = "\<lambda>f. fold f STABLE_UNITS []"])
     (auto simp: fun_eq_iff stable_batch_def Let_def)

lemma get_stable_needs_lookup:
  "map_of (get_stable_needs targets current) u =
     (if u \<in> set STABLE_UNITS then stable_batch targets current u else None)"
  unfolding get_stable_needs_fold fold_update_map_of by auto

text \<open>
  Claim C7, on the code.  For a stable unit with a positive target, the deficit the code
  computes is \<open>target - owned\<close>, and the batch is \<open>min deficit 25\<close> when that is
  positive: units queued in the stable are not subtracted.  With a target of 10 light,
  none owned and 10 in training, the stable path still asks for 10, where the barracks
  path on the mirrored input (10 spear queued) asks for nothing.
\<close>

theorem C7_stable_needs_ignore_queue:
  "map_of (get_stable_needs targets current) u =
     (if u \<in> set STABLE_UNITS \<and> 0 < dict_get targets u 0
          \<and> 0 < dict_get targets u 0 - dict_get current u 0
      then Some (min (dict_get targets u 0 - dict_get current u 0) 25) else None)
   \<and> get_stable_needs [(''light'', 10)] [(''light'', 0)] = [(''light'', 10)]
   \<and> get_barracks_needs [(''spear'', 10)] [(''spear'', 0)] [\<lparr>unit = ''spear'', count = 10\<rparr>] = []"
proof (intro conjI)
  show "map_of (get_stable_needs targets current) u =
     (if u \<in> set STABLE_UNITS \<and> 0 < dict_get targets u 0
          \<and> 0 < dict_get targets u 0 - dict_get current u 0
      then Some (min (dict_get targets u 0 - dict_get current u 0) 25) else None)"
    by (simp add: get_stable_needs_lookup stable_batch_def)
next
  show "get_stable_needs [(''light'', 10)] [(''light'', 0)] = [(''light'', 10)]"
    by (simp add: get_stable_needs_def STABLE_UNITS_def dict_get_def Let_def)
next
  show "get_barracks_needs [(''spear'', 10)] [(''spear'', 0)] [\<lparr>unit = ''spear'', count = 10\<rparr>] = []"
    by (simp add: get_barracks_needs_def BARRACKS_UNITS_def dict_get_def Let_def)
qed

text \<open>
  Claim C6, on the code.  \<open>max_queue\<close> is 2 whatever the premium flag says, and without
  premium, from an empty queue, one cycle places two orders.
\<close>

theorem C6_max_queue_without_premium:
  "max_queue state = 2
   \<and> snd (run accepting_game
        \<lparr>enabled = True, mode = ''priority'', build_steps = [], target_levels = [(''main'', 20)],
          priority_order = [''main'']\<rparr>
        \<lparr>resources = \<lparr>wood = 0, stone = 0, iron = 0\<rparr>,
          production = \<lparr>wood = 0, stone = 0, iron = 0\<rparr>\<rparr>
        \<lparr>hq_levels = [(''main'', 1)], hq_queue = [], hq_available = [], hq_premium = False\<rparr>)
      = [''main'', ''main'']"
proof
  show "max_queue state = 2" by (simp add: max_queue_def)
next
  have two: "(2::nat) = Suc (Suc 0)" by simp
  show "snd (run accepting_game
        \<lparr>enabled = True, mode = ''priority'', build_steps = [], target_levels = [(''main'', 20)],
          priority_order = [''main'']\<rparr>
        \<lparr>resources = \<lparr>wood = 0, stone = 0, iron = 0\<rparr>,
          production = \<lparr>wood = 0, stone = 0, iron = 0\<rparr>\<rparr>
        \<lparr>hq_levels = [(''main'', 1)], hq_queue = [], hq_available = [], hq_premium = False\<rparr>)
      = [''main'', ''main'']"
    unfolding run_def max_queue_def
    by (simp add: two pick_next_building_def pick_next_building_priority_def check_cost_def
          accepting_game_def dict_get_def record_finish_def BuildResult_init_def Let_def)
qed

lemma dict_get_update_al:
  "dict_get (AList.update k v d) k' dflt = (if k' = k then v else dict_get d k' dflt)"
  by (simp add: dict_get_def update_conv')

lemma dict_get_Nil: "dict_get [] k dflt = dflt"
  by (simp add: dict_get_def)

lemma update_keys_present:
  "k \<in> fst ` set al \<Longrightarrow> map fst (AList.update k v al) = map fst al"
  by (induction al) auto

lemma dict_get_pos_key:
  "dict_get d k (0::int) > 0 \<Longrightarrow> k \<in> fst ` set d"
  by (auto simp: dict_get_def split: option.splits dest: map_of_SomeD intro: rev_image_eqI)

text \<open>The unit loop moves troops from \<open>remaining\<close> to the tier and never takes more than there are.\<close>

lemma fill_units_conserve:
  assumes "distinct units" "\<forall>x\<in>set units. dict_get alloc x 0 = 0"
    and "\<forall>x. 0 \<le> dict_get remaining x 0"
    and "fill_units target carries units (alloc, remaining, filled) = (alloc', remaining', filled')"
  shows "(\<forall>x. dict_get alloc' x 0 + dict_get remaining' x 0 = dict_get alloc x 0 + dict_get remaining x 0)
         \<and> (\<forall>x. 0 \<le> dict_get remaining' x 0)
         \<and> map fst remaining' = map fst remaining"
  using assms
proof (induction units arbitrary: alloc remaining filled)
  case Nil
  then show ?case by simp
next
  case (Cons u units)
  define avail where "avail = dict_get remaining u 0"
  define cp where "cp = dict_get carries u 25"
  define take where "take = min avail \<lfloor>(target - filled) / real_of_int cp\<rfloor>"
  have d: "distinct units" "u \<notin> set units" using Cons.prems(1) by auto
  have z: "\<forall>x\<in>set units. dict_get alloc x 0 = 0" "dict_get alloc u 0 = 0"
    using Cons.prems(2) by auto
  have unf: "fill_units target carries (u # units) (alloc, remaining, filled) =
      (if avail \<le> 0 then fill_units target carries units (alloc, remaining, filled)
       else if cp \<le> 0 then fill_units target carries units (alloc, remaining, filled)
       else if target - filled \<le> 0 then (alloc, remaining, filled)
       else if take > 0
         then fill_units target carries units
                (AList.update u take alloc, AList.update u (avail - take) remaining,
                 filled + real_of_int (take * cp))
         else fill_units target carries units (alloc, remaining, filled))"
    by (simp only: fill_units.simps Let_def avail_def cp_def take_def)
  show ?case
  proof (cases "0 < avail \<and> 0 < cp \<and> 0 < target - filled \<and> 0 < take")
    case True
    let ?alloc1 = "AList.update u take alloc"
    let ?rem1 = "AList.update u (avail - take) remaining"
    have step: "fill_units target carries units (?alloc1, ?rem1, filled + real_of_int (take * cp))
                  = (alloc', remaining', filled')"
      using Cons.prems(4) True unfolding unf by simp
    have z1: "\<forall>x\<in>set units. dict_get ?alloc1 x 0 = 0"
      using z(1) d(2) by (auto simp: dict_get_update_al)
    have "take \<le> avail" by (simp add: take_def)
    then have nn1: "\<forall>x. 0 \<le> dict_get ?rem1 x 0"
      using Cons.prems(3) by (auto simp: dict_get_update_al)
    have key: "u \<in> fst ` set remaining"
      using True by (intro dict_get_pos_key) (simp add: avail_def)
    from Cons.IH [OF d(1) z1 nn1 step]
    have IH: "\<forall>x. dict_get alloc' x 0 + dict_get remaining' x 0 = dict_get ?alloc1 x 0 + dict_get ?rem1 x 0"
             "\<forall>x. 0 \<le> dict_get remaining' x 0"
             "map fst remaining' = map fst ?rem1"
      by blast+
    have eq: "\<forall>x. dict_get alloc' x 0 + dict_get remaining' x 0 = dict_get alloc x 0 + dict_get remaining x 0"
    proof
      fix x
      have "dict_get alloc' x 0 + dict_get remaining' x 0 = dict_get ?alloc1 x 0 + dict_get ?rem1 x 0"
        using IH(1) by blast
      also have "\<dots> = dict_get alloc x 0 + dict_get remaining x 0"
        using z(2) by (simp add: dict_get_update_al avail_def)
      finally show "dict_get alloc' x 0 + dict_get remaining' x 0 = dict_get alloc x 0 + dict_get remaining x 0" .
    qed
    have keys: "map fst remaining' = map fst remaining"
      using IH(3) update_keys_present [OF key] by simp
    show ?thesis
      using eq IH(2) keys by blast
  next
    case False
    note P = Cons.prems(4) [unfolded unf]
    have "(alloc, remaining, filled) = (alloc', remaining', filled')
          \<or> fill_units target carries units (alloc, remaining, filled) = (alloc', remaining', filled')"
    proof (cases "avail \<le> 0")
      case True
      with P show ?thesis by simp
    next
      case a: False
      show ?thesis
      proof (cases "cp \<le> 0")
        case True
        with P a show ?thesis by simp
      next
        case c: False
        show ?thesis
        proof (cases "target - filled \<le> 0")
          case True
          with P a c show ?thesis by simp
        next
          case g: False
          with False a c have "\<not> take > 0" by simp
          with P a c g show ?thesis by simp
        qed
      qed
    qed
    then consider (stop) "(alloc, remaining, filled) = (alloc', remaining', filled')"
      | (skip) "fill_units target carries units (alloc, remaining, filled) = (alloc', remaining', filled')"
      by blast
    then show ?thesis
    proof cases
      case stop
      with Cons.prems(3) show ?thesis by simp
    next
      case skip
      from Cons.IH [OF d(1) z(1) Cons.prems(3) skip] show ?thesis .
    qed
  qed
qed


lemma allocated_update:
  "distinct (map fst allocations) \<Longrightarrow>
   allocated (AList.update t a allocations) x =
     allocated allocations x - dict_get (dict_get allocations t []) x 0 + dict_get a x 0"
proof (induction allocations)
  case Nil
  then show ?case by (simp add: allocated_def dict_get_def)
next
  case (Cons p allocations)
  obtain t' a' where p: "p = (t', a')" by (cases p) auto
  show ?case
  proof (cases "t' = t")
    case True
    then show ?thesis by (simp add: p allocated_def dict_get_def)
  next
    case False
    have "allocated (AList.update t a allocations) x =
            allocated allocations x - dict_get (dict_get allocations t []) x 0 + dict_get a x 0"
      using Cons by simp
    moreover have "dict_get (p # allocations) t [] = dict_get allocations t []"
      using False by (simp add: p dict_get_def)
    ultimately show ?thesis
      using False by (simp add: p allocated_def)
  qed
qed

lemma dict_get_update_other:
  "t' \<noteq> t \<Longrightarrow> dict_get (AList.update t a allocations) t' dflt = dict_get allocations t' dflt"
  by (simp add: dict_get_update_al)

lemma fill_tiers_conserve:
  assumes "distinct tiers" "distinct (map fst allocations)" "distinct (map fst remaining)"
    and "\<forall>t\<in>set tiers. dict_get allocations t [] = []"
    and "\<forall>x. 0 \<le> dict_get remaining x 0"
    and "fill_tiers tc ws wsum carries dump tiers (allocations, remaining) = (allocations', remaining')"
  shows "(\<forall>x. allocated allocations' x + dict_get remaining' x 0 = allocated allocations x + dict_get remaining x 0)
         \<and> (\<forall>x. 0 \<le> dict_get remaining' x 0)
         \<and> distinct (map fst allocations') \<and> distinct (map fst remaining')"
  using assms
proof (induction tiers arbitrary: allocations remaining)
  case Nil
  then show ?case by simp
next
  case (Cons tier tiers)
  have d: "distinct tiers" "tier \<notin> set tiers" using Cons.prems(1) by auto
  have e: "\<forall>t\<in>set tiers. dict_get allocations t [] = []" "dict_get allocations tier [] = []"
    using Cons.prems(4) by auto
  show ?case
  proof (cases "tier = dump")
    case True
    then have "fill_tiers tc ws wsum carries dump tiers (allocations, remaining) = (allocations', remaining')"
      using Cons.prems(6) by simp
    from Cons.IH [OF d(1) Cons.prems(2,3) e(1) Cons.prems(5) this] show ?thesis .
  next
    case False
    define target where "target = real_of_int tc * the (map_of ws tier) / wsum"
    define units where "units = sort_key (\<lambda>u. - dict_get carries u 25) (map fst remaining)"
    obtain alloc rem1 filled where
      fu: "fill_units target carries units (dict_get allocations tier [], remaining, 0) = (alloc, rem1, filled)"
      by (cases "fill_units target carries units (dict_get allocations tier [], remaining, 0)") auto
    have step: "fill_tiers tc ws wsum carries dump tiers (AList.update tier alloc allocations, rem1)
                  = (allocations', remaining')"
      using Cons.prems(6) False fu by (simp add: Let_def target_def units_def)
    have du: "distinct units" using Cons.prems(3) by (simp add: units_def)
    have z: "\<forall>x\<in>set units. dict_get (dict_get allocations tier []) x 0 = 0"
      by (simp add: e(2) dict_get_Nil)
    from fill_units_conserve [OF du z Cons.prems(5) fu]
    have c: "\<forall>x. dict_get alloc x 0 + dict_get rem1 x 0 =
                  dict_get (dict_get allocations tier []) x 0 + dict_get remaining x 0"
            "\<forall>x. 0 \<le> dict_get rem1 x 0" "map fst rem1 = map fst remaining"
      by blast+
    have d1: "distinct (map fst (AList.update tier alloc allocations))"
      using Cons.prems(2) by (rule distinct_update)
    have d2: "distinct (map fst rem1)" using c(3) Cons.prems(3) by simp
    have e1: "\<forall>t\<in>set tiers. dict_get (AList.update tier alloc allocations) t [] = []"
      using e(1) d(2) by (auto simp: dict_get_update_al)
    from Cons.IH [OF d(1) d1 d2 e1 c(2) step]
    have IH: "\<forall>x. allocated allocations' x + dict_get remaining' x 0 =
                   allocated (AList.update tier alloc allocations) x + dict_get rem1 x 0"
             "\<forall>x. 0 \<le> dict_get remaining' x 0"
             "distinct (map fst allocations')" "distinct (map fst remaining')"
      by blast+
    have eq: "\<forall>x. allocated allocations' x + dict_get remaining' x 0 =
                   allocated allocations x + dict_get remaining x 0"
    proof
      fix x
      have "allocated allocations' x + dict_get remaining' x 0 =
              allocated (AList.update tier alloc allocations) x + dict_get rem1 x 0"
        using IH(1) by blast
      also have "\<dots> = allocated allocations x + dict_get alloc x 0 + dict_get rem1 x 0"
        by (simp add: allocated_update [OF Cons.prems(2)] e(2) dict_get_Nil)
      also have "\<dots> = allocated allocations x + dict_get remaining x 0"
        using c(1) [rule_format, of x] by (simp add: e(2) dict_get_Nil)
      finally show "allocated allocations' x + dict_get remaining' x 0 =
                      allocated allocations x + dict_get remaining x 0" .
    qed
    show ?thesis using eq IH(2,3,4) by blast
  qed
qed

lemma dict_get_not_key:
  "k \<notin> fst ` set d \<Longrightarrow> dict_get d k dflt = dflt"
  by (simp add: dict_get_def map_of_eq_None_iff [THEN iffD2])

lemma dump_remaining_conserve:
  "distinct (map fst allocations) \<Longrightarrow> distinct (map fst remaining) \<Longrightarrow>
   allocated (dump_remaining dump remaining allocations) x =
     allocated allocations x + max 0 (dict_get remaining x 0)
   \<and> distinct (map fst (dump_remaining dump remaining allocations))"
proof (induction remaining arbitrary: allocations)
  case Nil
  then show ?case by (simp add: dump_remaining_def dict_get_Nil)
next
  case (Cons p remaining)
  obtain u c where p: "p = (u, c)" by (cases p) auto
  have nk: "u \<notin> fst ` set remaining" and dr: "distinct (map fst remaining)"
    using Cons.prems(2) by (auto simp: p)
  define cur where "cur = dict_get allocations dump []"
  define allocations1 where
    "allocations1 = (if c > 0 then AList.update dump (AList.update u (dict_get cur u 0 + c) cur) allocations
                     else allocations)"
  have unf: "dump_remaining dump (p # remaining) allocations = dump_remaining dump remaining allocations1"
    by (simp add: dump_remaining_def p allocations1_def cur_def)
  have d1: "distinct (map fst allocations1)"
    using Cons.prems(1) by (simp add: allocations1_def distinct_update)
  have a1: "allocated allocations1 x = allocated allocations x + (if x = u then max 0 c else 0)"
    by (simp add: allocations1_def allocated_update [OF Cons.prems(1)] cur_def [symmetric]
          dict_get_update_al)
  have g: "dict_get (p # remaining) x 0 = (if x = u then c else dict_get remaining x 0)"
    by (simp add: p dict_get_def)
  have gu: "dict_get remaining u 0 = 0" using nk by (rule dict_get_not_key)
  from Cons.IH [OF d1 dr]
  have IH: "allocated (dump_remaining dump remaining allocations1) x =
              allocated allocations1 x + max 0 (dict_get remaining x 0)"
           "distinct (map fst (dump_remaining dump remaining allocations1))"
    by blast+
  show ?case
    unfolding unf using IH a1 g gu by simp
qed

lemma allocated_filter_nonempty:
  "allocated (filter (\<lambda>(t, troops). troops \<noteq> []) al) x = allocated al x"
  by (induction al) (auto simp: allocated_def dict_get_Nil)

lemma allocated_init:
  "allocated (map (\<lambda>(tier, w). (tier, [])) ws) x = 0"
  by (induction ws) (auto simp: allocated_def dict_get_Nil)

lemma dict_get_init:
  "dict_get (map (\<lambda>(tier, w). (tier, [])) ws) t [] = []"
  by (induction ws) (auto simp: dict_get_def)

lemma scavenge_pool_nonneg:
  "0 \<le> dict_get (scavenge_pool available) x 0"
proof (cases "map_of (scavenge_pool available) x")
  case None
  then show ?thesis by (simp add: dict_get_def)
next
  case (Some c)
  then have "(x, c) \<in> set (scavenge_pool available)" by (rule map_of_SomeD)
  then have "0 < c" by (simp add: scavenge_pool_def)
  with Some show ?thesis by (simp add: dict_get_def)
qed

lemma scavenge_pool_distinct:
  "distinct (map fst available) \<Longrightarrow> distinct (map fst (scavenge_pool available))"
  unfolding scavenge_pool_def by (rule distinct_map_filter)


lemma pool_carry_pos_nonempty: "0 < pool_carry carries pool \<Longrightarrow> pool \<noteq> []"
  by (auto simp: pool_carry_def)

text \<open>
  Claim C3.  For dictionaries \<open>available\<close> and \<open>option_weights\<close> (keys pairwise
  distinct), when the weights have a positive sum and the pool has a positive total carry
  capacity, the allocation returned sends out, for every unit, over all tiers together,
  exactly the pool's count of that unit: no troop of the pool stays behind.
\<close>

theorem C3_zero_waste:
  assumes "distinct (map fst available)" "distinct (map fst option_weights)"
    and "0 < sum_list (map snd option_weights)"
    and "0 < pool_carry (case unit_carries of None \<Rightarrow> [] | Some d \<Rightarrow> d) (scavenge_pool available)"
  shows "allocated (allocate_by_ratio available option_weights unit_carries) u =
           dict_get (scavenge_pool available) u 0"
proof -
  define pool where "pool = scavenge_pool available"
  define carries where "carries = (case unit_carries of None \<Rightarrow> [] | Some d \<Rightarrow> d)"
  define wsum where "wsum = sum_list (map snd option_weights)"
  define dump where "dump = Min (set (map fst option_weights))"
  define init where "init = map (\<lambda>(tier, w :: real). (tier, [] :: (string \<times> int) list)) option_weights"
  define tiers where "tiers = rev (sort (map fst option_weights))"
  obtain allocations' remaining' where
    ft: "fill_tiers (pool_carry carries pool) option_weights wsum carries dump tiers (init, pool)
           = (allocations', remaining')"
    by (cases "fill_tiers (pool_carry carries pool) option_weights wsum carries dump tiers (init, pool)") auto
  have ne: "pool \<noteq> []"
    using assms(4) pool_carry_pos_nonempty unfolding pool_def by blast
  have res: "allocate_by_ratio available option_weights unit_carries =
               filter (\<lambda>(t, troops). troops \<noteq> []) (dump_remaining dump remaining' allocations')"
    using assms(3,4) ne ft
    unfolding allocate_by_ratio_def Let_def pool_def [symmetric] carries_def [symmetric]
      wsum_def [symmetric] dump_def [symmetric] init_def [symmetric] tiers_def [symmetric]
    by (simp add: not_le [symmetric])
  have dt: "distinct tiers" using assms(2) by (simp add: tiers_def)
  have di: "distinct (map fst init)"
    using assms(2) by (simp add: init_def comp_def case_prod_unfold)
  have dp: "distinct (map fst pool)"
    using assms(1) unfolding pool_def by (rule scavenge_pool_distinct)
  have ei: "\<forall>t\<in>set tiers. dict_get init t [] = []"
    by (simp add: init_def dict_get_init)
  have nn: "\<forall>x. 0 \<le> dict_get pool x 0"
    by (simp add: pool_def scavenge_pool_nonneg)
  from fill_tiers_conserve [OF dt di dp ei nn ft]
  have c: "\<forall>x. allocated allocations' x + dict_get remaining' x 0 = allocated init x + dict_get pool x 0"
          "\<forall>x. 0 \<le> dict_get remaining' x 0"
          "distinct (map fst allocations')" "distinct (map fst remaining')"
    by blast+
  have "allocated (allocate_by_ratio available option_weights unit_carries) u =
          allocated (dump_remaining dump remaining' allocations') u"
    by (simp add: res allocated_filter_nonempty)
  also have "\<dots> = allocated allocations' u + max 0 (dict_get remaining' u 0)"
    using dump_remaining_conserve [OF c(3,4)] by blast
  also have "\<dots> = allocated allocations' u + dict_get remaining' u 0"
    using c(2) by (simp add: max_def)
  also have "\<dots> = allocated init u + dict_get pool u 0"
    using c(1) by blast
  also have "\<dots> = dict_get pool u 0"
    by (simp add: init_def allocated_init)
  finally show ?thesis by (simp add: pool_def)
qed

text \<open>
  C3 on 1000 spear, 5 ram, 33 light and 0 axe over the four tiers with the default carry
  of 25: all spear and light are sent, and ram, which is not scavengeable, is not.
\<close>

theorem C3_zero_waste_witness:
  "distinct (map fst [(''spear'', 1000 :: int), (''ram'', 5), (''light'', 33), (''axe'', 0)])
   \<and> distinct (map fst (equal_runtime_weights [1, 2, 3, 4]))
   \<and> 0 < sum_list (map snd (equal_runtime_weights [1, 2, 3, 4]))
   \<and> pool_carry [] (scavenge_pool [(''spear'', 1000), (''ram'', 5), (''light'', 33), (''axe'', 0)]) = 25825
   \<and> allocated (allocate_by_ratio [(''spear'', 1000), (''ram'', 5), (''light'', 33), (''axe'', 0)]
                   (equal_runtime_weights [1, 2, 3, 4]) None) ''spear'' = 1000
   \<and> allocated (allocate_by_ratio [(''spear'', 1000), (''ram'', 5), (''light'', 33), (''axe'', 0)]
                   (equal_runtime_weights [1, 2, 3, 4]) None) ''light'' = 33
   \<and> allocated (allocate_by_ratio [(''spear'', 1000), (''ram'', 5), (''light'', 33), (''axe'', 0)]
                   (equal_runtime_weights [1, 2, 3, 4]) None) ''ram'' = 0"
proof -
  have w: "equal_runtime_weights [1, 2, 3, 4] = [(1, 10), (2, 4), (3, 2), (4, 4 / 3)]"
    by (simp add: equal_runtime_weights_def LOOT_RATIOS_def)
  have p: "scavenge_pool [(''spear'', 1000), (''ram'', 5), (''light'', 33), (''axe'', 0)] =
             [(''spear'', 1000), (''light'', 33)]"
    by (simp add: scavenge_pool_def SCAVENGE_UNITS_def)
  have h1: "distinct (map fst [(''spear'', 1000 :: int), (''ram'', 5), (''light'', 33), (''axe'', 0)])"
    by simp
  have h2: "distinct (map fst (equal_runtime_weights [1, 2, 3, 4]))" by (simp add: w)
  have h3: "0 < sum_list (map snd (equal_runtime_weights [1, 2, 3, 4]))" by (simp add: w)
  have pc: "pool_carry [] (scavenge_pool [(''spear'', 1000), (''ram'', 5), (''light'', 33), (''axe'', 0)]) = 25825"
    by (simp add: p pool_carry_def dict_get_def)
  have h4: "0 < pool_carry (case None of None \<Rightarrow> [] | Some d \<Rightarrow> d)
                  (scavenge_pool [(''spear'', 1000), (''ram'', 5), (''light'', 33), (''axe'', 0)])"
    by (simp add: pc)
  note c = C3_zero_waste [OF h1 h2 h3 h4]
  show ?thesis
    using h1 h2 h3 pc c [of "''spear''"] c [of "''light''"] c [of "''ram''"]
    by (simp add: p dict_get_def)
qed

lemma update_not_key:
  "k \<notin> fst ` set al \<Longrightarrow> AList.update k v al = al @ [(k, v)]"
  by (induction al) auto

lemma dump_remaining_single:
  "distinct (map fst remaining) \<Longrightarrow> \<forall>p\<in>set remaining. 0 < snd p \<Longrightarrow>
   fst ` set acc \<inter> fst ` set remaining = {} \<Longrightarrow>
   dump_remaining t remaining [(t, acc)] = [(t, acc @ remaining)]"
proof (induction remaining arbitrary: acc)
  case Nil
  then show ?case by (simp add: dump_remaining_def)
next
  case (Cons p remaining)
  obtain u c where p: "p = (u, c)" by (cases p) auto
  have c: "0 < c" using Cons.prems(2) by (simp add: p)
  have nk: "u \<notin> fst ` set acc" using Cons.prems(3) by (auto simp: p)
  have cur: "dict_get [(t, acc)] t [] = acc" by (simp add: dict_get_def)
  have u0: "dict_get acc u 0 = 0" using nk by (rule dict_get_not_key)
  have unf: "dump_remaining t (p # remaining) [(t, acc)] = dump_remaining t remaining [(t, acc @ [(u, c)])]"
    using c by (simp add: dump_remaining_def p cur u0 update_not_key [OF nk])
  have d: "distinct (map fst remaining)" "\<forall>p\<in>set remaining. 0 < snd p"
    using Cons.prems(1,2) by auto
  have dj: "fst ` set (acc @ [(u, c)]) \<inter> fst ` set remaining = {}"
    using Cons.prems(1,3) by (auto simp: p)
  show ?case
    unfolding unf using Cons.IH [OF d dj] by (simp add: p)
qed

text \<open>
  Claim C10.  With a single tier of positive weight and a pool of positive total carry
  capacity, the result assigns the whole pool, unchanged, to that tier; the tier is the
  dump tier, so the loop over the tiers leaves its state as it is.
\<close>

theorem C10_single_tier:
  assumes "distinct (map fst available)" "0 < w"
    and "0 < pool_carry (case unit_carries of None \<Rightarrow> [] | Some d \<Rightarrow> d) (scavenge_pool available)"
  shows "allocate_by_ratio available [(t, w)] unit_carries = [(t, scavenge_pool available)]
         \<and> fill_tiers tc [(t, w)] ws carries (Min (set (map fst [(t, w)]))) (rev (sort (map fst [(t, w)]))) st = st"
proof
  have ne: "scavenge_pool available \<noteq> []"
    using assms(3) pool_carry_pos_nonempty by blast
  have dp: "distinct (map fst (scavenge_pool available))"
    using assms(1) by (rule scavenge_pool_distinct)
  have pos: "\<forall>p\<in>set (scavenge_pool available). 0 < snd p"
    by (auto simp: scavenge_pool_def)
  have dump: "dump_remaining t (scavenge_pool available) [(t, [])] = [(t, scavenge_pool available)]"
    using dump_remaining_single [OF dp pos, of "[]" t] by simp
  show "allocate_by_ratio available [(t, w)] unit_carries = [(t, scavenge_pool available)]"
    using assms(2,3) ne unfolding allocate_by_ratio_def Let_def
    by (simp add: not_le [symmetric] dump)
next
  show "fill_tiers tc [(t, w)] ws carries (Min (set (map fst [(t, w)]))) (rev (sort (map fst [(t, w)]))) st = st"
    by (cases st) simp
qed

text \<open>C10 on 40 spear, 1 snob and 3 heavy with tier 2 alone: spear and heavy all go to tier 2.\<close>

theorem C10_single_tier_witness:
  "distinct (map fst [(''spear'', 40 :: int), (''snob'', 1), (''heavy'', 3)])
   \<and> pool_carry [(''spear'', 25), (''heavy'', 50)]
        (scavenge_pool [(''spear'', 40), (''snob'', 1), (''heavy'', 3)]) = 1150
   \<and> allocate_by_ratio [(''spear'', 40), (''snob'', 1), (''heavy'', 3)] [(2, 4)]
        (Some [(''spear'', 25), (''heavy'', 50)]) = [(2, [(''spear'', 40), (''heavy'', 3)])]"
proof -
  have p: "scavenge_pool [(''spear'', 40), (''snob'', 1), (''heavy'', 3)] = [(''spear'', 40), (''heavy'', 3)]"
    by (simp add: scavenge_pool_def SCAVENGE_UNITS_def)
  have h1: "distinct (map fst [(''spear'', 40 :: int), (''snob'', 1), (''heavy'', 3)])" by simp
  have h2: "(0 :: real) < 4" by simp
  have pc: "pool_carry [(''spear'', 25), (''heavy'', 50)]
        (scavenge_pool [(''spear'', 40), (''snob'', 1), (''heavy'', 3)]) = 1150"
    by (simp add: p pool_carry_def dict_get_def)
  have h3: "0 < pool_carry (case Some [(''spear'', 25), (''heavy'', 50)] of None \<Rightarrow> [] | Some d \<Rightarrow> d)
                   (scavenge_pool [(''spear'', 40), (''snob'', 1), (''heavy'', 3)])"
    by (simp add: pc)
  show ?thesis
    using h1 pc C10_single_tier [OF h1 h2 h3, of 2, THEN conjunct1] by (simp add: p)
qed






































end
